theory Spec2Isabelle
  imports Complex_Main "HOL-Library.Word" "HOL-Library.Log_Nat" "HOL-Library.Multiset"
begin

section \<open>Python values used by the detector\<close>

text \<open>
  The program is \<^verbatim>\<open>duplicate_file_detector.py\<close>. A Python \<^verbatim>\<open>str\<close> is modelled by
  its UTF-8 bytes (\<^typ>\<open>string\<close>), an exception by a value of \<open>py_exception\<close>, and a
  function that may raise returns \<open>py_exception + 'a\<close> with \<open>Inl\<close> for the raise.
\<close>

datatype py_exception = OverflowError | OSError string

subsection \<open>Numbers: int and binary64 float\<close>

text \<open>
  \<^verbatim>\<open>format_size\<close> receives an \<^verbatim>\<open>int\<close> byte count (a size, so a natural number) and
  turns it into a \<^verbatim>\<open>float\<close> with its first \<^verbatim>\<open>bytes /= 1024\<close>. A float is modelled by
  the rational number it denotes. \<open>float_round\<close> is rounding to the nearest binary64 value
  (53 significant bits, ties to even) of a rational that is \<open>0\<close> or at least \<open>1\<close>, which is
  all the loop ever divides or prints; \<open>2 ^ 1024\<close> is the first value beyond the format.
\<close>

datatype py_num = PyInt nat | PyFloat rat

definition round_half_even :: "rat \<Rightarrow> int" where
  "round_half_even x =
     (let f = \<lfloor>x\<rfloor>; r = x - of_int f
      in if r < 1 / 2 then f
         else if 1 / 2 < r then f + 1
         else if even f then f else f + 1)"

definition float_round :: "rat \<Rightarrow> rat" where
  "float_round x =
     (let b = nat (bitlen \<lfloor>x\<rfloor>)
      in if b \<le> 53 then of_int (round_half_even (x * 2 ^ (53 - b))) / 2 ^ (53 - b)
         else of_int (round_half_even (x / 2 ^ (b - 53))) * 2 ^ (b - 53))"

fun py_lt_1024 :: "py_num \<Rightarrow> bool" where
  "py_lt_1024 (PyInt n) = (n < 1024)"
| "py_lt_1024 (PyFloat x) = (x < 1024)"

text \<open>
  \<^verbatim>\<open>bytes /= 1024\<close>: true division. On an \<^verbatim>\<open>int\<close> the quotient is correctly rounded and
  raises \<^verbatim>\<open>OverflowError\<close> when it is too large for a float; on a float it is IEEE division.
\<close>

fun py_truediv_1024 :: "py_num \<Rightarrow> py_exception + py_num" where
  "py_truediv_1024 (PyInt n) =
     (let q = float_round (of_nat n / 1024)
      in if 2 ^ 1024 \<le> q then Inl OverflowError else Inr (PyFloat q))"
| "py_truediv_1024 (PyFloat x) = Inr (PyFloat (float_round (x / 1024)))"

subsection \<open>Decimal rendering\<close>

definition digit_char :: "nat \<Rightarrow> char" where
  "digit_char d = ''0123456789'' ! d"

function show_nat :: "nat \<Rightarrow> string" where
  "show_nat n =
     (if n < 10 then [digit_char n] else show_nat (n div 10) @ [digit_char (n mod 10)])"
  by pat_completeness auto
termination
  by (relation "measure id") auto

declare show_nat.simps [simp del]

text \<open>
  The format specification \<^verbatim>\<open>.2f\<close> on a non-negative float: the exact value is rounded to
  hundredths, ties to even, and printed with two digits after the point.
\<close>

definition format_2f :: "rat \<Rightarrow> string" where
  "format_2f x =
     (let h = nat (round_half_even (x * 100))
      in show_nat (h div 100) @ ''.'' @ [digit_char (h div 10 mod 10), digit_char (h mod 10)])"

text \<open>An \<^verbatim>\<open>int\<close> formatted with \<^verbatim>\<open>.2f\<close> is converted to a float first.\<close>

fun py_format_2f :: "py_num \<Rightarrow> py_exception + string" where
  "py_format_2f (PyInt n) =
     (let x = float_round (of_nat n)
      in if 2 ^ 1024 \<le> x then Inl OverflowError else Inr (format_2f x))"
| "py_format_2f (PyFloat x) = Inr (format_2f x)"

section \<open>format_size\<close>

text \<open>
  \<^verbatim>\<open>
  for unit in ['B','KB','MB','GB','TB']:
      if bytes < 1024:
          return f"{bytes:.2f} {unit}"
      bytes /= 1024
  \<close>
  A \<^verbatim>\<open>for\<close> loop that runs out of units falls off the end of the function, which returns
  \<^verbatim>\<open>None\<close>: the result is \<open>Inr None\<close>.
\<close>

fun format_size_loop :: "string list \<Rightarrow> py_num \<Rightarrow> py_exception + string option" where
  "format_size_loop [] bytes = Inr None"
| "format_size_loop (unit # units) bytes =
     (if py_lt_1024 bytes then
        (case py_format_2f bytes of
           Inl e \<Rightarrow> Inl e
         | Inr s \<Rightarrow> Inr (Some (s @ '' '' @ unit)))
      else
        (case py_truediv_1024 bytes of
           Inl e \<Rightarrow> Inl e
         | Inr bytes' \<Rightarrow> format_size_loop units bytes'))"

definition format_size :: "nat \<Rightarrow> py_exception + string option" where
  "format_size bytes = format_size_loop [''B'', ''KB'', ''MB'', ''GB'', ''TB''] (PyInt bytes)"

section \<open>The environment: file system and hashlib\<close>

text \<open>
  What the program reads is an \<open>env\<close>: the SHA-256 function of \<^verbatim>\<open>hashlib\<close> (a parameter;
  the digest is 256 bits), and the file system as the calls of the program see it:
  \<^verbatim>\<open>os.path.isdir\<close>, \<^verbatim>\<open>os.walk\<close>, \<^verbatim>\<open>open(path, 'rb')\<close> with \<^verbatim>\<open>read\<close>,
  \<^verbatim>\<open>os.path.getsize\<close> and \<^verbatim>\<open>open(filename, 'w')\<close>. An \<^verbatim>\<open>OSError\<close> is given by its message.
  A file either cannot be opened, or has a content and possibly a byte offset at which the
  device reports an error when a \<^verbatim>\<open>read\<close> reaches it.
\<close>

type_synonym path = string
type_synonym byte = "8 word"

datatype node_kind = Missing | RegularFile | Directory

datatype file_state = Unopenable string | Openable "byte list" "(nat \<times> string) option"

record env =
  lib_sha256 :: "byte list \<Rightarrow> 256 word"
  fs_kind :: "path \<Rightarrow> node_kind"
  fs_walk :: "path \<Rightarrow> (path \<times> string list \<times> string list) list"
  fs_file :: "path \<Rightarrow> file_state"
  fs_getsize :: "path \<Rightarrow> string + nat"
  fs_create :: "path \<Rightarrow> string option"

text \<open>
  What the program does to the outside is an \<open>effects\<close> value, passed through every
  function: the texts given to \<^verbatim>\<open>print\<close>, the file-system calls made (oldest first), and
  the text files of the working directory by name.
\<close>

datatype event = Walk path | OpenRead path | Stat path | OpenWrite path

record effects =
  stdout :: "string list"
  trace :: "event list"
  files :: "path \<rightharpoonup> string"

definition print :: "string \<Rightarrow> effects \<Rightarrow> effects" where
  "print s eff = eff\<lparr>stdout := stdout eff @ [s]\<rparr>"

definition syscall :: "event \<Rightarrow> effects \<Rightarrow> effects" where
  "syscall e eff = eff\<lparr>trace := trace eff @ [e]\<rparr>"

definition os_path_isdir :: "env \<Rightarrow> path \<Rightarrow> bool" where
  "os_path_isdir env p = (fs_kind env p = Directory)"

text \<open>
  \<^verbatim>\<open>os.walk(top)\<close> with its default \<^verbatim>\<open>onerror=None\<close>: when \<^verbatim>\<open>top\<close> cannot be listed
  (it is missing, or not a directory) the error of \<^verbatim>\<open>scandir\<close> is dropped and nothing is
  yielded; otherwise it yields the triples \<open>(dirpath, dirnames, filenames)\<close> of the tree.
\<close>

definition os_walk ::
  "env \<Rightarrow> path \<Rightarrow> effects \<Rightarrow> (path \<times> string list \<times> string list) list \<times> effects" where
  "os_walk env top_dir eff =
     (if fs_kind env top_dir = Directory then fs_walk env top_dir else [],
      syscall (Walk top_dir) eff)"

text \<open>\<^verbatim>\<open>os.path.join(a, b)\<close> of \<^verbatim>\<open>posixpath\<close>.\<close>

definition os_path_join :: "path \<Rightarrow> string \<Rightarrow> path" where
  "os_path_join a b =
     (if b \<noteq> [] \<and> hd b = CHR ''/'' then b
      else if a = [] \<or> last a = CHR ''/'' then a @ b
      else a @ ''/'' @ b)"

text \<open>
  A \<^verbatim>\<open>hashlib.sha256()\<close> object is the message fed to it so far; \<^verbatim>\<open>update\<close> appends and
  \<^verbatim>\<open>hexdigest\<close> writes the digest of the message as 64 hexadecimal digits, most
  significant first.
\<close>

definition hex_char :: "nat \<Rightarrow> char" where
  "hex_char d = ''0123456789abcdef'' ! d"

definition hexdigest :: "256 word \<Rightarrow> string" where
  "hexdigest w = map (\<lambda>i. hex_char (unat (take_bit 4 (drop_bit (4 * (63 - i)) w)))) [0..<64]"

section \<open>compute_file_hash\<close>

text \<open>
  \<^verbatim>\<open>f.read(n)\<close> at offset \<open>pos\<close>: up to \<open>n\<close> bytes, empty at the end of the file; it raises
  when the faulty offset lies among the bytes it reads.
\<close>

definition f_read :: "byte list \<Rightarrow> (nat \<times> string) option \<Rightarrow> nat \<Rightarrow> nat \<Rightarrow> string + byte list" where
  "f_read content fault pos n =
     (let chunk = take n (drop pos content)
      in case fault of
           None \<Rightarrow> Inr chunk
         | Some (k, msg) \<Rightarrow> if pos \<le> k \<and> k < pos + length chunk then Inl msg else Inr chunk)"

text \<open>
  \<^verbatim>\<open>
  while chunk := f.read(block_size):
      sha256.update(chunk)
  \<close>
\<close>

function read_loop ::
  "nat \<Rightarrow> byte list \<Rightarrow> (nat \<times> string) option \<Rightarrow> nat \<Rightarrow> byte list \<Rightarrow> string + byte list" where
  "read_loop block_size content fault pos sha256 =
     (case f_read content fault pos block_size of
        Inl msg \<Rightarrow> Inl msg
      | Inr chunk \<Rightarrow>
          if chunk = [] then Inr sha256
          else read_loop block_size content fault (pos + length chunk) (sha256 @ chunk))"
  by pat_completeness auto
termination
proof (relation "measure (\<lambda>(block_size, content, fault, pos, sha256). length content - pos)")
  show "wf (measure (\<lambda>(block_size, content, fault, pos, sha256). length content - pos))"
    by simp
next
  fix block_size :: nat and content :: "byte list" and fault :: "(nat \<times> string) option"
    and pos :: nat and sha256 chunk :: "byte list"
  assume r: "f_read content fault pos block_size = Inr chunk" and ne: "chunk \<noteq> []"
  have "chunk = take block_size (drop pos content)"
    using r by (auto simp: f_read_def Let_def split: option.splits if_splits)
  with ne have "pos < length content" by auto
  moreover from ne have "0 < length chunk" by simp
  ultimately show "((block_size, content, fault, pos + length chunk, sha256 @ chunk),
                 (block_size, content, fault, pos, sha256))
        \<in> measure (\<lambda>(block_size, content, fault, pos, sha256). length content - pos)"
    by (simp del: length_greater_0_conv)
qed

declare read_loop.simps [simp del]

text \<open>
  \<^verbatim>\<open>
  sha256 = hashlib.sha256()
  try:
      with open(path, 'rb') as f:
          while chunk := f.read(block_size): sha256.update(chunk)
      return sha256.hexdigest()
  except Exception as e:
      print(f"Error al leer {path}: {e}")
      return None
  \<close>
\<close>

definition compute_file_hash ::
  "env \<Rightarrow> path \<Rightarrow> nat \<Rightarrow> effects \<Rightarrow> string option \<times> effects" where
  "compute_file_hash env path block_size eff =
     (let eff1 = syscall (OpenRead path) eff
      in case (case fs_file env path of
                 Unopenable msg \<Rightarrow> Inl msg
               | Openable content fault \<Rightarrow> read_loop block_size content fault 0 []) of
           Inl msg \<Rightarrow> (None, print (''Error al leer '' @ path @ '': '' @ msg) eff1)
         | Inr sha256 \<Rightarrow> (Some (hexdigest (lib_sha256 env sha256)), eff1))"

section \<open>find_duplicate_files\<close>

text \<open>
  A \<^verbatim>\<open>dict\<close> keeps its keys in insertion order, so it is an association list.
  \<open>dict_append\<close> is \<^verbatim>\<open>hash_to_files[file_hash].append(full_path)\<close> on a
  \<^verbatim>\<open>defaultdict(list)\<close>: a new key goes to the end with a one-element list.
\<close>

type_synonym dict = "(string \<times> path list) list"

fun dict_append :: "string \<Rightarrow> path \<Rightarrow> dict \<Rightarrow> dict" where
  "dict_append k v [] = [(k, [v])]"
| "dict_append k v ((k', vs) # d) =
     (if k = k' then (k', vs @ [v]) # d else (k', vs) # dict_append k v d)"

text \<open>The inner loop, \<^verbatim>\<open>for filename in filenames\<close>; \<^verbatim>\<open>if file_hash:\<close> is Python truth.\<close>

fun scan_files :: "env \<Rightarrow> path \<Rightarrow> string list \<Rightarrow> dict \<times> nat \<times> effects \<Rightarrow> dict \<times> nat \<times> effects" where
  "scan_files env dirpath [] st = st"
| "scan_files env dirpath (filename # filenames) (hash_to_files, total_files, eff) =
     (let full_path = os_path_join dirpath filename;
          (file_hash, eff') = compute_file_hash env full_path 65536 eff
      in scan_files env dirpath filenames
           (case file_hash of
              None \<Rightarrow> (hash_to_files, total_files, eff')
            | Some h \<Rightarrow>
                if h \<noteq> [] then (dict_append h full_path hash_to_files, total_files + 1, eff')
                else (hash_to_files, total_files, eff')))"

text \<open>The outer loop, \<^verbatim>\<open>for dirpath, _, filenames in os.walk(base_directory)\<close>.\<close>

fun scan_dirs ::
  "env \<Rightarrow> (path \<times> string list \<times> string list) list \<Rightarrow> dict \<times> nat \<times> effects \<Rightarrow> dict \<times> nat \<times> effects" where
  "scan_dirs env [] st = st"
| "scan_dirs env ((dirpath, dirnames, filenames) # rest) st =
     scan_dirs env rest (scan_files env dirpath filenames st)"

definition find_duplicate_files :: "env \<Rightarrow> path \<Rightarrow> effects \<Rightarrow> dict \<times> effects" where
  "find_duplicate_files env base_directory eff =
     (let (entries, eff1) = os_walk env base_directory eff;
          (hash_to_files, total_files, eff2) = scan_dirs env entries ([], 0, eff1);
          duplicates = filter (\<lambda>(h, paths). 1 < length paths) hash_to_files
      in (duplicates, eff2))"

section \<open>calculate_reclaimable_space\<close>

text \<open>
  \<^verbatim>\<open>
  for path in paths[1:]:
      try: space += os.path.getsize(path)
      except Exception as e: print(f"Error al obtener tamano de {path}: {e}")
  \<close>
\<close>

definition size_error_text :: "path \<Rightarrow> string \<Rightarrow> string" where
  "size_error_text path msg =
     ''Error al obtener tama'' @ [CHR 0xC3, CHR 0xB1] @ ''o de '' @ path @ '': '' @ msg"

fun reclaim_paths :: "env \<Rightarrow> path list \<Rightarrow> nat \<times> effects \<Rightarrow> nat \<times> effects" where
  "reclaim_paths env [] st = st"
| "reclaim_paths env (path # paths) (space, eff) =
     (let eff1 = syscall (Stat path) eff
      in reclaim_paths env paths
           (case fs_getsize env path of
              Inr n \<Rightarrow> (space + n, eff1)
            | Inl msg \<Rightarrow> (space, print (size_error_text path msg) eff1)))"

fun reclaim_groups :: "env \<Rightarrow> dict \<Rightarrow> nat \<times> effects \<Rightarrow> nat \<times> effects" where
  "reclaim_groups env [] st = st"
| "reclaim_groups env ((h, paths) # rest) st =
     reclaim_groups env rest (reclaim_paths env (drop 1 paths) st)"

definition calculate_reclaimable_space :: "env \<Rightarrow> dict \<Rightarrow> effects \<Rightarrow> nat \<times> effects" where
  "calculate_reclaimable_space env duplicates eff = reclaim_groups env duplicates (0, eff)"

section \<open>save_results_to_csv\<close>

text \<open>
  \<^verbatim>\<open>csv.writer(f).writerow(row)\<close> in the default dialect: fields joined by commas and
  ended by CR LF; a field holding a comma, a double quote, CR or LF is put in double quotes
  with its double quotes doubled. (A row of one empty field is quoted too; the program
  writes rows of two fields only.)
\<close>

definition csv_field :: "string \<Rightarrow> string" where
  "csv_field s =
     (if \<exists>c \<in> set s. c \<in> {CHR '','', CHR 0x22, CHR 0x0D, CHR 0x0A}
      then [CHR 0x22] @ concat (map (\<lambda>c. if c = CHR 0x22 then [c, c] else [c]) s) @ [CHR 0x22]
      else s)"

fun csv_join :: "string list \<Rightarrow> string" where
  "csv_join [] = []"
| "csv_join [s] = s"
| "csv_join (s # t # ts) = s @ '','' @ csv_join (t # ts)"

definition writerow :: "string list \<Rightarrow> string \<Rightarrow> string" where
  "writerow row f = f @ csv_join (map csv_field row) @ [CHR 0x0D, CHR 0x0A]"

fun write_paths :: "string \<Rightarrow> path list \<Rightarrow> string \<Rightarrow> string" where
  "write_paths hash_val [] f = f"
| "write_paths hash_val (path # paths) f = write_paths hash_val paths (writerow [hash_val, path] f)"

fun write_groups :: "dict \<Rightarrow> string \<Rightarrow> string" where
  "write_groups [] f = f"
| "write_groups ((hash_val, paths) # rest) f = write_groups rest (write_paths hash_val paths f)"

text \<open>
  \<^verbatim>\<open>open(filename, mode='w', newline='', encoding='utf-8')\<close> raises when the file cannot be
  created; otherwise the file starts empty, whatever it held before, and is left with what
  was written when the \<^verbatim>\<open>with\<close> block ends.
\<close>

definition save_results_to_csv ::
  "env \<Rightarrow> dict \<Rightarrow> path \<Rightarrow> effects \<Rightarrow> py_exception option \<times> effects" where
  "save_results_to_csv env duplicates filename eff =
     (let eff1 = syscall (OpenWrite filename) eff
      in case fs_create env filename of
           Some msg \<Rightarrow> (Some (OSError msg), eff1)
         | None \<Rightarrow>
             (let f = writerow [''Hash'', ''Ruta de archivo duplicado''] [];
                  f = write_groups duplicates f
              in (None, eff1\<lparr>files := (files eff1)(filename \<mapsto> f)\<rparr>)))"

section \<open>main\<close>

definition show_int :: "int \<Rightarrow> string" where
  "show_int i = (if i < 0 then ''-'' @ show_nat (nat (- i)) else show_nat (nat i))"

definition py_str :: "string option \<Rightarrow> string" where
  "py_str v = (case v of None \<Rightarrow> ''None'' | Some s \<Rightarrow> s)"

definition invalid_path_text :: string where
  "invalid_path_text = ''Ruta no v'' @ [CHR 0xC3, CHR 0xA1] @ ''lida.''"

definition completed_text :: string where
  "completed_text =
     [CHR 0x0A, CHR 0xE2, CHR 0x9C, CHR 0x85] @ '' An'' @ [CHR 0xC3, CHR 0xA1] @ ''lisis completado.''"

text \<open>
  \<open>directory\<close> is the value of \<^verbatim>\<open>input("Introduce el directorio a analizar: ").strip()\<close>.
  \<^verbatim>\<open>save_results_to_csv(duplicates)\<close> takes the default file name. An exception of
  \<^verbatim>\<open>save_results_to_csv\<close> or \<^verbatim>\<open>format_size\<close> is not caught and ends \<^verbatim>\<open>main\<close>.
\<close>

definition main :: "env \<Rightarrow> string \<Rightarrow> effects \<Rightarrow> py_exception option \<times> effects" where
  "main env directory eff =
     (if \<not> os_path_isdir env directory then (None, print invalid_path_text eff)
      else
        (let eff = print ''Analizando archivos...'' eff;
             (duplicates, eff) = find_duplicate_files env directory eff;
             total_duplicates = (\<Sum>(h, paths) \<leftarrow> duplicates. int (length paths) - 1);
             (reclaimable_space, eff) = calculate_reclaimable_space env duplicates eff
         in case save_results_to_csv env duplicates ''duplicados.csv'' eff of
              (Some e, eff) \<Rightarrow> (Some e, eff)
            | (None, eff) \<Rightarrow>
                (let eff = print completed_text eff;
                     eff = print (''Ficheros duplicados encontrados: '' @ show_int total_duplicates) eff
                 in case format_size reclaimable_space of
                      Inl e \<Rightarrow> (Some e, eff)
                    | Inr formatted \<Rightarrow>
                        (let eff = print (''Espacio potencialmente liberable: '' @ py_str formatted) eff;
                             eff = print (''Resultado exportado a '' @ [CHR 0x27] @ ''duplicados.csv''
                                          @ [CHR 0x27] @ ''.'') eff
                         in (None, eff)))))"

section \<open>Notions used in the statements\<close>

text \<open>
  The bytes a complete read of a file delivers: none when the file cannot be opened or an
  error offset lies inside its content.
\<close>

definition file_content :: "file_state \<Rightarrow> byte list option" where
  "file_content f =
     (case f of
        Unopenable msg \<Rightarrow> None
      | Openable content fault \<Rightarrow>
          (case fault of
             None \<Rightarrow> Some content
           | Some (k, msg) \<Rightarrow> if k < length content then None else Some content))"

text \<open>The hexadecimal SHA-256 digest of the content of the file at a path, when it can be read.\<close>

definition digest_of :: "env \<Rightarrow> path \<Rightarrow> string option" where
  "digest_of env p = map_option (\<lambda>c. hexdigest (lib_sha256 env c)) (file_content (fs_file env p))"

text \<open>The full paths of the files \<^verbatim>\<open>os.walk\<close> enumerates under a base directory, in its order.\<close>

definition walked_files :: "env \<Rightarrow> path \<Rightarrow> path list" where
  "walked_files env base_directory =
     concat (map (\<lambda>(dirpath, dirnames, filenames). map (os_path_join dirpath) filenames)
                 (if fs_kind env base_directory = Directory then fs_walk env base_directory else []))"

text \<open>One step of the grouping: a path enters the index under its digest when it has one.\<close>

definition index_path :: "env \<Rightarrow> dict \<Rightarrow> path \<Rightarrow> dict" where
  "index_path env d p = (case digest_of env p of None \<Rightarrow> d | Some h \<Rightarrow> dict_append h p d)"


section \<open>A small tree for concrete runs\<close>

text \<open>
  A directory \<^verbatim>\<open>/d\<close> with the files \<^verbatim>\<open>a\<close>, \<^verbatim>\<open>b\<close>, \<^verbatim>\<open>c\<close>, \<^verbatim>\<open>k\<close>, \<^verbatim>\<open>x\<close> and a
  subdirectory \<^verbatim>\<open>s\<close> holding \<^verbatim>\<open>e\<close>. The files \<^verbatim>\<open>a\<close> and \<^verbatim>\<open>c\<close> have the same two bytes,
  \<^verbatim>\<open>b\<close> has one byte, \<^verbatim>\<open>k\<close> has two other bytes, \<^verbatim>\<open>x\<close> cannot be opened and \<^verbatim>\<open>e\<close>
  fails while it is read. The digest function of this example is a stand-in, the length of
  the message: under it the contents of \<^verbatim>\<open>a\<close> and \<^verbatim>\<open>k\<close> collide.
\<close>

definition example_files :: "path \<Rightarrow> file_state" where
  "example_files p =
     (if p = ''/d/a'' then Openable [1, 2] None
      else if p = ''/d/b'' then Openable [3] None
      else if p = ''/d/c'' then Openable [1, 2] None
      else if p = ''/d/k'' then Openable [7, 8] None
      else if p = ''/d/x'' then Unopenable ''Permission denied''
      else if p = ''/d/s/e'' then Openable [1, 2] (Some (1, ''Input/output error''))
      else Unopenable ''No such file or directory'')"

definition example_sizes :: "path \<Rightarrow> string + nat" where
  "example_sizes p =
     (if p = ''/d/a'' \<or> p = ''/d/c'' \<or> p = ''/d/k'' \<or> p = ''/d/s/e'' then Inr 2
      else if p = ''/d/b'' then Inr 1
      else Inl ''No such file or directory'')"

definition example_env :: env where
  "example_env =
     \<lparr>lib_sha256 = (\<lambda>m. of_nat (length m)),
      fs_kind = (\<lambda>p. if p = ''/d'' \<or> p = ''/d/s'' then Directory
                      else if p \<in> {''/d/a'', ''/d/b'', ''/d/c'', ''/d/k'', ''/d/x'', ''/d/s/e''}
                      then RegularFile
                      else Missing),
      fs_walk = (\<lambda>p. if p = ''/d'' then [(''/d'', [''s''], [''a'', ''b'', ''c'', ''k'', ''x'']),
                                         (''/d/s'', [], [''e''])]
                      else if p = ''/d/s'' then [(''/d/s'', [], [''e''])]
                      else []),
      fs_file = example_files,
      fs_getsize = example_sizes,
      fs_create = (\<lambda>p. None)\<rparr>"

text \<open>The same tree, enumerated in another order.\<close>

definition example_env_reordered :: env where
  "example_env_reordered =
     example_env\<lparr>fs_walk := (\<lambda>p. if p = ''/d'' then [(''/d/s'', [], [''e'']),
                                                      (''/d'', [''s''], [''x'', ''k'', ''c'', ''b'', ''a''])]
                                  else [])\<rparr>"

definition no_effects :: effects where
  "no_effects = \<lparr>stdout = [], trace = [], files = Map.empty\<rparr>"

section \<open>Rounding lemmas\<close>

lemma round_half_even_of_int: "round_half_even (of_int z) = z"
  by (simp add: round_half_even_def)

lemma round_half_even_ge_floor: "\<lfloor>x\<rfloor> \<le> round_half_even x"
  by (simp add: round_half_even_def Let_def)

lemma round_half_even_lower: "of_int z \<le> x \<Longrightarrow> z \<le> round_half_even x"
proof -
  assume "of_int z \<le> x"
  then have "z \<le> \<lfloor>x\<rfloor>" by (simp add: le_floor_iff)
  with round_half_even_ge_floor [of x] show ?thesis by linarith
qed

lemma bitlen_le_of_less:
  assumes "0 < z" "z < 2 ^ m"
  shows "nat (bitlen z) \<le> m"
proof -
  from bitlen_bounds [OF assms(1)] have "2 ^ nat (bitlen z - 1) \<le> z" by simp
  with assms(2) have "(2::int) ^ nat (bitlen z - 1) < 2 ^ m" by linarith
  then have "nat (bitlen z - 1) < m" by simp
  then show ?thesis by linarith
qed

lemma float_round_exact:
  assumes n: "n < 2 ^ 53" and s: "s \<le> 52" and ge: "2 ^ s \<le> n"
  shows "float_round (of_nat n / 2 ^ s) = of_nat n / 2 ^ s"
proof -
  define x :: rat where "x = of_nat n / 2 ^ s"
  define b where "b = nat (bitlen \<lfloor>x\<rfloor>)"
  have x1: "1 \<le> x"
  proof -
    have "(2::rat) ^ s \<le> of_nat n" using ge by (metis of_nat_le_iff of_nat_numeral of_nat_power)
    then show ?thesis by (simp add: x_def le_divide_eq)
  qed
  then have fpos: "0 < \<lfloor>x\<rfloor>" by linarith
  have "x < 2 ^ (53 - s)"
  proof -
    have "(of_nat n :: rat) < 2 ^ 53" using n by (metis of_nat_less_iff of_nat_numeral of_nat_power)
    also have "(2::rat) ^ 53 = 2 ^ (53 - s) * 2 ^ s" using s by (simp flip: power_add)
    finally show ?thesis by (simp add: x_def divide_less_eq)
  qed
  then have "\<lfloor>x\<rfloor> < 2 ^ (53 - s)"
    by (metis floor_less_iff of_int_numeral of_int_power)
  from bitlen_le_of_less [OF fpos this] have bs: "b + s \<le> 53" using s by (simp add: b_def)
  then have b53: "b \<le> 53" by simp
  have "(2::rat) ^ (53 - b) = 2 ^ (53 - b - s) * 2 ^ s"
    using bs by (simp flip: power_add)
  then have "x * 2 ^ (53 - b) = of_int (int n * 2 ^ (53 - b - s))"
    by (simp add: x_def)
  then have "round_half_even (x * 2 ^ (53 - b)) = int n * 2 ^ (53 - b - s)"
    by (simp only: round_half_even_of_int)
  then have "float_round x = of_int (int n * 2 ^ (53 - b - s)) / 2 ^ (53 - b)"
    using b53 by (simp add: float_round_def Let_def flip: b_def)
  also have "\<dots> = x"
    using \<open>x * 2 ^ (53 - b) = of_int (int n * 2 ^ (53 - b - s))\<close> by (simp add: field_simps)
  finally show ?thesis by (simp add: x_def)
qed

lemma float_round_lower:
  assumes "2 ^ k \<le> x"
  shows "2 ^ k \<le> float_round x"
proof -
  define b where "b = nat (bitlen \<lfloor>x\<rfloor>)"
  have x1: "1 \<le> x" using assms by (meson one_le_numeral one_le_power order_trans)
  then have fpos: "0 < \<lfloor>x\<rfloor>" by linarith
  show ?thesis
  proof (cases "b \<le> 53")
    case True
    have "of_int (2 ^ k * 2 ^ (53 - b)) \<le> x * 2 ^ (53 - b)"
      using assms by simp
    then have "2 ^ k * 2 ^ (53 - b) \<le> round_half_even (x * 2 ^ (53 - b))"
      by (rule round_half_even_lower)
    then have "(of_int (2 ^ k * 2 ^ (53 - b)) :: rat) \<le> of_int (round_half_even (x * 2 ^ (53 - b)))"
      by (simp only: of_int_le_iff)
    then have "(2::rat) ^ k \<le> of_int (round_half_even (x * 2 ^ (53 - b))) / 2 ^ (53 - b)"
      by (simp add: le_divide_eq)
    then show ?thesis using True by (simp add: float_round_def Let_def flip: b_def)
  next
    case False
    then have b: "53 < b" by simp
    from bitlen_bounds [OF fpos] have lo: "2 ^ nat (bitlen \<lfloor>x\<rfloor> - 1) \<le> \<lfloor>x\<rfloor>"
      and hi: "\<lfloor>x\<rfloor> < 2 ^ b" by (simp_all add: b_def)
    have "nat (bitlen \<lfloor>x\<rfloor> - 1) = b - 1" by (simp add: b_def nat_diff_distrib')
    with lo have "(2::int) ^ (b - 1) \<le> \<lfloor>x\<rfloor>" by simp
    then have xlo: "(2::rat) ^ (b - 1) \<le> x"
      by (metis le_floor_iff of_int_numeral of_int_power)
    have "b - 1 = 52 + (b - 53)" using b by simp
    then have "(2::rat) ^ (b - 1) = 2 ^ 52 * 2 ^ (b - 53)" by (simp only: power_add)
    with xlo have "of_int (2 ^ 52) \<le> x / 2 ^ (b - 53)" by (simp add: le_divide_eq)
    then have "2 ^ 52 \<le> round_half_even (x / 2 ^ (b - 53))"
      by (rule round_half_even_lower)
    then have "(of_int (2 ^ 52) :: rat) \<le> of_int (round_half_even (x / 2 ^ (b - 53)))"
      by (simp only: of_int_le_iff)
    then have "(2::rat) ^ 52 * 2 ^ (b - 53) \<le> of_int (round_half_even (x / 2 ^ (b - 53))) * 2 ^ (b - 53)"
      by simp
    then have rlo: "(2::rat) ^ (b - 1) \<le> float_round x"
      using False \<open>(2::rat) ^ (b - 1) = 2 ^ 52 * 2 ^ (b - 53)\<close>
      by (simp add: float_round_def Let_def flip: b_def)
    have "x < 2 ^ b" using hi by (metis floor_less_iff of_int_numeral of_int_power)
    with assms have "(2::rat) ^ k < 2 ^ b" by linarith
    then have "k < b" by simp
    then have "(2::rat) ^ k \<le> 2 ^ (b - 1)" by (simp add: power_increasing)
    with rlo show ?thesis by linarith
  qed
qed


lemma float_round_0: "float_round 0 = 0"
  by (simp add: float_round_def round_half_even_def)

lemma float_round_nat_small: "n < 2 ^ 53 \<Longrightarrow> float_round (of_nat n) = of_nat n"
proof (cases "n = 0")
  case True
  then show ?thesis by (simp add: float_round_0)
next
  case False
  assume n: "n < 2 ^ 53"
  from False have "2 ^ 0 \<le> n" by simp
  from float_round_exact [OF n _ this] show ?thesis by simp
qed

lemma rat_of_nat_less_pow2: "n < 2 ^ k \<Longrightarrow> (of_nat n :: rat) < 2 ^ k"
  by (metis of_nat_less_iff of_nat_numeral of_nat_power)

lemma below_float_max:
  assumes "x < 2 ^ 53"
  shows "\<not> (2::rat) ^ 1024 \<le> x"
proof -
  have "(2::rat) ^ 53 \<le> 2 ^ 1024" by (rule power_increasing) simp_all
  with assms have "x < 2 ^ 1024" by (rule less_le_trans)
  then show ?thesis by (simp only: not_le)
qed

lemma py_format_2f_int:
  assumes "n < 1024"
  shows "py_format_2f (PyInt n) = Inr (format_2f (of_nat n))"
proof -
  have "n < 2 ^ 10" using assms by simp
  also have "(2::nat) ^ 10 \<le> 2 ^ 53" by (rule power_increasing) simp_all
  finally have n: "n < 2 ^ 53" .
  then have fr: "float_round (of_nat n) = of_nat n" by (rule float_round_nat_small)
  from n have "\<not> (2::rat) ^ 1024 \<le> of_nat n"
    by (intro below_float_max rat_of_nat_less_pow2)
  then show ?thesis by (simp only: py_format_2f.simps fr Let_def if_False)
qed


lemma kib_pow: "(1024::rat) ^ j = 2 ^ (10 * j)"
proof -
  have "(1024::rat) = 2 ^ 10" by simp
  then show ?thesis by (simp only: power_mult)
qed

lemma kib_pow_nat: "(1024::nat) ^ j = 2 ^ (10 * j)"
proof -
  have "(1024::nat) = 2 ^ 10" by simp
  then show ?thesis by (simp only: power_mult)
qed

lemma scaled_lt_iff: "(of_nat n / 1024 ^ j < (1024::rat)) = (n < 1024 ^ Suc j)"
proof -
  have "(of_nat n / 1024 ^ j < (1024::rat)) = ((of_nat n :: rat) < 1024 * 1024 ^ j)"
    by (simp add: divide_less_eq)
  also have "\<dots> = ((of_nat n :: rat) < of_nat (1024 ^ Suc j))"
    by simp
  also have "\<dots> = (n < 1024 ^ Suc j)"
    by (simp only: of_nat_less_iff)
  finally show ?thesis .
qed

lemma truediv_exact:
  assumes n: "n < 2 ^ 53" and j: "j < 5" and ge: "1024 ^ Suc j \<le> n"
  shows "float_round (of_nat n / 1024 ^ j / 1024) = of_nat n / 1024 ^ Suc j"
proof -
  have s: "10 * Suc j \<le> 52" using j by simp
  have "2 ^ (10 * Suc j) \<le> n" using ge by (simp only: kib_pow_nat)
  from float_round_exact [OF n s this]
  have "float_round (of_nat n / 1024 ^ Suc j) = of_nat n / 1024 ^ Suc j"
    by (simp only: kib_pow)
  then show ?thesis by (simp add: mult.commute)
qed

lemma step_stop0:
  assumes "n < 1024"
  shows "format_size_loop (u # us) (PyInt n) = Inr (Some (format_2f (of_nat n) @ '' '' @ u))"
  using assms by (simp add: py_format_2f_int del: py_format_2f.simps)

lemma step_skip0:
  assumes ge: "1024 \<le> n" and n: "n < 2 ^ 53"
  shows "format_size_loop (u # us) (PyInt n) = format_size_loop us (PyFloat (of_nat n / 1024))"
proof -
  from truediv_exact [OF n, of 0] ge
  have fr: "float_round (of_nat n / 1024) = of_nat n / 1024" by simp
  have "(of_nat n :: rat) / 1024 \<le> of_nat n" by (simp add: divide_le_eq)
  also have "(of_nat n :: rat) < 2 ^ 53" using n by (rule rat_of_nat_less_pow2)
  finally have "\<not> (2::rat) ^ 1024 \<le> of_nat n / 1024" by (rule below_float_max)
  then have "py_truediv_1024 (PyInt n) = Inr (PyFloat (of_nat n / 1024))"
    by (simp only: py_truediv_1024.simps fr Let_def if_False)
  moreover have "\<not> py_lt_1024 (PyInt n)" using ge by simp
  ultimately show ?thesis by (simp del: py_truediv_1024.simps)
qed

lemma step_stop:
  assumes "n < 1024 ^ Suc j"
  shows "format_size_loop (u # us) (PyFloat (of_nat n / 1024 ^ j)) =
         Inr (Some (format_2f (of_nat n / 1024 ^ j) @ '' '' @ u))"
proof -
  have "py_lt_1024 (PyFloat (of_nat n / 1024 ^ j))"
    using assms by (simp only: py_lt_1024.simps scaled_lt_iff)
  then show ?thesis by (simp only: format_size_loop.simps py_format_2f.simps if_True sum.case)
qed

lemma step_skip:
  assumes n: "n < 2 ^ 53" and j: "j < 5" and ge: "1024 ^ Suc j \<le> n"
  shows "format_size_loop (u # us) (PyFloat (of_nat n / 1024 ^ j)) =
         format_size_loop us (PyFloat (of_nat n / 1024 ^ Suc j))"
proof -
  have "\<not> py_lt_1024 (PyFloat (of_nat n / 1024 ^ j))"
    using ge by (simp only: py_lt_1024.simps scaled_lt_iff not_less)
  then show ?thesis
    by (simp only: format_size_loop.simps py_truediv_1024.simps if_False sum.case
        truediv_exact [OF n j ge])
qed


lemma pib_below_2_53: "n < 1024 ^ 5 \<Longrightarrow> n < (2::nat) ^ 53"
proof -
  assume "n < 1024 ^ 5"
  then have "n < 2 ^ 50" by (simp only: kib_pow_nat) simp
  also have "(2::nat) ^ 50 \<le> 2 ^ 53" by (rule power_increasing) simp_all
  finally show ?thesis .
qed

lemma format_size_general:
  assumes k: "k < 5"
    and lt: "of_nat n / 1024 ^ k < (1024::rat)"
    and first: "\<forall>j<k. (1024::rat) \<le> of_nat n / 1024 ^ j"
  shows "format_size n =
         Inr (Some (format_2f (of_nat n / 1024 ^ k) @ '' '' @ [''B'', ''KB'', ''MB'', ''GB'', ''TB''] ! k))"
proof -
  from lt have hi: "n < 1024 ^ Suc k" by (simp only: scaled_lt_iff)
  have "(1024::nat) ^ Suc k \<le> 1024 ^ 5" using k by (intro power_increasing) simp_all
  with hi have "n < 1024 ^ 5" by (rule less_le_trans)
  then have n: "n < 2 ^ 53" by (rule pib_below_2_53)
  have lo: "1024 ^ Suc j \<le> n" if "j < k" for j
  proof -
    from first that have "\<not> of_nat n / 1024 ^ j < (1024::rat)" by (simp add: not_less)
    then show ?thesis by (simp only: scaled_lt_iff not_less)
  qed
  have skip: "format_size_loop (u # us) (PyFloat (of_nat n / 1024 ^ j)) =
              format_size_loop us (PyFloat (of_nat n / 1024 ^ Suc j))" if "j < k" for j u us
    using that k by (intro step_skip [OF n _ lo]) simp_all
  have skip0: "format_size_loop (u # us) (PyInt n) = format_size_loop us (PyFloat (of_nat n / 1024 ^ Suc 0))"
    if "0 < k" for u us
    using step_skip0 [OF _ n, of u us] lo [OF that] by simp
  have stop: "format_size_loop (u # us) (PyFloat (of_nat n / 1024 ^ k)) =
              Inr (Some (format_2f (of_nat n / 1024 ^ k) @ '' '' @ u))" for u us
    by (rule step_stop [OF hi])
  from k consider "k = 0" | "k = 1" | "k = 2" | "k = 3" | "k = 4" by linarith
  then show ?thesis
  proof cases
    case 1
    with hi have "n < 1024" by simp
    from step_stop0 [OF this] 1 show ?thesis by (simp add: format_size_def)
  next
    case 2
    then show ?thesis
      using skip0 stop by (simp add: format_size_def del: format_size_loop.simps)
  next
    case 3
    then show ?thesis
      using skip0 skip [of 1] stop
      by (simp add: format_size_def numeral_2_eq_2 del: format_size_loop.simps)
  next
    case 4
    then show ?thesis
      using skip0 skip [of 1] skip [of 2] stop
      by (simp add: format_size_def numeral_2_eq_2 numeral_3_eq_3 del: format_size_loop.simps)
  next
    case 5
    have k4: "k = Suc (Suc (Suc (Suc 0)))" using 5 by simp
    show ?thesis
      using skip0 skip [of "Suc 0"] skip [of "Suc (Suc 0)"] skip [of "Suc (Suc (Suc 0))"] stop
      unfolding k4 format_size_def by (simp del: format_size_loop.simps power_Suc)
  qed
qed


lemma float_skip:
  assumes "2 ^ (k + 10) \<le> y"
  shows "format_size_loop (u # us) (PyFloat y) =
           format_size_loop us (PyFloat (float_round (y / 1024)))"
    and "2 ^ k \<le> float_round (y / 1024)"
proof -
  have p: "(2::rat) ^ (k + 10) = 2 ^ k * 1024" by (simp add: power_add)
  have "(1::rat) \<le> 2 ^ k" by simp
  then have "(1024::rat) \<le> 2 ^ k * 1024" by simp
  with assms p have "1024 \<le> y" by linarith
  then have "\<not> py_lt_1024 (PyFloat y)" by simp
  then show "format_size_loop (u # us) (PyFloat y) =
           format_size_loop us (PyFloat (float_round (y / 1024)))"
    by (simp only: format_size_loop.simps py_truediv_1024.simps if_False sum.case)
  from assms p have "2 ^ k \<le> y / 1024" by (simp add: le_divide_eq)
  then show "2 ^ k \<le> float_round (y / 1024)" by (rule float_round_lower)
qed

lemma format_size_beyond_tb:
  assumes "1024 ^ 5 \<le> n"
  shows "format_size n = Inr None \<or> format_size n = Inl OverflowError"
proof -
  define y1 where "y1 = float_round (of_nat n / 1024)"
  define y2 where "y2 = float_round (y1 / 1024)"
  define y3 where "y3 = float_round (y2 / 1024)"
  define y4 where "y4 = float_round (y3 / 1024)"
  have "(1024::nat) \<le> 1024 ^ 5" by simp
  with assms have n1024: "\<not> py_lt_1024 (PyInt n)" by simp
  have "(of_nat (1024 ^ 5) :: rat) \<le> of_nat n" using assms by (simp only: of_nat_le_iff)
  then have "(2::rat) ^ 40 * 1024 \<le> of_nat n" by simp
  then have "(2::rat) ^ (30 + 10) \<le> of_nat n / 1024" by (simp add: le_divide_eq)
  then have b1: "2 ^ (30 + 10) \<le> y1" unfolding y1_def by (rule float_round_lower)
  from float_skip [OF b1] have
    s1: "format_size_loop (u # us) (PyFloat y1) = format_size_loop us (PyFloat y2)"
    and b2: "2 ^ (20 + 10) \<le> y2" for u us
    by (simp_all add: y2_def)
  from float_skip [OF b2] have
    s2: "format_size_loop (u # us) (PyFloat y2) = format_size_loop us (PyFloat y3)"
    and b3: "2 ^ (10 + 10) \<le> y3" for u us
    by (simp_all add: y3_def)
  from float_skip [OF b3] have
    s3: "format_size_loop (u # us) (PyFloat y3) = format_size_loop us (PyFloat y4)"
    and b4: "2 ^ (0 + 10) \<le> y4" for u us
    by (simp_all add: y4_def)
  from float_skip(1) [OF b4] have
    s4: "format_size_loop (u # us) (PyFloat y4) = format_size_loop us (PyFloat (float_round (y4 / 1024)))"
    for u us .
  show ?thesis
  proof (cases "2 ^ 1024 \<le> y1")
    case True
    then have "py_truediv_1024 (PyInt n) = Inl OverflowError"
      by (simp only: py_truediv_1024.simps Let_def if_True flip: y1_def)
    with n1024 show ?thesis by (simp add: format_size_def del: py_truediv_1024.simps)
  next
    case False
    then have "py_truediv_1024 (PyInt n) = Inr (PyFloat y1)"
      by (simp only: py_truediv_1024.simps Let_def if_False flip: y1_def)
    with n1024 have "format_size n = format_size_loop [''KB'', ''MB'', ''GB'', ''TB''] (PyFloat y1)"
      by (simp add: format_size_def del: py_truediv_1024.simps)
    moreover have "format_size_loop [''KB'', ''MB'', ''GB'', ''TB''] (PyFloat y1) = Inr None"
      by (simp only: s1 s2 s3 s4 format_size_loop.simps(1))
    ultimately show ?thesis by (simp only: simp_thms)
  qed
qed

section \<open>Evaluating the decimal rendering\<close>

lemma show_nat_digit: "n < 10 \<Longrightarrow> show_nat n = [digit_char n]"
  by (simp add: show_nat.simps)

lemma show_nat_more: "10 \<le> n \<Longrightarrow> show_nat n = show_nat (n div 10) @ [digit_char (n mod 10)]"
  by (subst show_nat.simps) simp

lemma round_half_even_frac:
  assumes "0 < b"
  shows "round_half_even (of_int a / of_int b) =
         (if 2 * (a mod b) < b then a div b
          else if b < 2 * (a mod b) then a div b + 1
          else if even (a div b) then a div b else a div b + 1)"
proof -
  have f: "\<lfloor>(of_int a / of_int b :: rat)\<rfloor> = a div b"
    by (simp add: floor_divide_of_int_eq)
  have "(of_int a :: rat) = of_int (a div b) * of_int b + of_int (a mod b)"
    by (metis div_mult_mod_eq of_int_add of_int_mult)
  then have r: "(of_int a / of_int b :: rat) - of_int (a div b) = of_int (a mod b) / of_int b"
    using assms by (simp add: field_simps)
  have lt: "((of_int (a mod b) / of_int b :: rat) < 1 / 2) = (2 * (a mod b) < b)"
  proof -
    have "((of_int (a mod b) / of_int b :: rat) < 1 / 2) = ((of_int (2 * (a mod b)) :: rat) < of_int b)"
      using assms by (simp add: field_simps)
    then show ?thesis by (simp only: of_int_less_iff)
  qed
  have gt: "((1 / 2 :: rat) < of_int (a mod b) / of_int b) = (b < 2 * (a mod b))"
  proof -
    have "((1 / 2 :: rat) < of_int (a mod b) / of_int b) = ((of_int b :: rat) < of_int (2 * (a mod b)))"
      using assms by (simp add: field_simps)
    then show ?thesis by (simp only: of_int_less_iff)
  qed
  show ?thesis
    unfolding round_half_even_def Let_def f r lt gt ..
qed


lemma format_2f_frac:
  assumes "0 < b"
  shows "format_2f (of_int a / of_int b) =
         (let h = nat (if 2 * (100 * a mod b) < b then 100 * a div b
                       else if b < 2 * (100 * a mod b) then 100 * a div b + 1
                       else if even (100 * a div b) then 100 * a div b else 100 * a div b + 1)
          in show_nat (h div 100) @ ''.'' @ [digit_char (h div 10 mod 10), digit_char (h mod 10)])"
proof -
  have "(of_int a / of_int b :: rat) * 100 = of_int (100 * a) / of_int b" by simp
  then show ?thesis
    unfolding format_2f_def by (simp only: round_half_even_frac [OF assms])
qed

lemma format_size_beyond_tb_exact:
  assumes ge: "1024 ^ 5 \<le> n" and n: "n < 2 ^ 53"
  shows "format_size n = Inr None"
proof -
  have lo: "1024 ^ Suc j \<le> n" if "j < 5" for j
  proof -
    have "(1024::nat) ^ Suc j \<le> 1024 ^ 5" using that by (intro power_increasing) simp_all
    with ge show ?thesis by (rule le_trans [rotated])
  qed
  have skip: "format_size_loop (u # us) (PyFloat (of_nat n / 1024 ^ j)) =
              format_size_loop us (PyFloat (of_nat n / 1024 ^ Suc j))" if "j < 5" for j u us
    using that by (intro step_skip [OF n _ lo])
  have skip0: "format_size_loop (u # us) (PyInt n) =
               format_size_loop us (PyFloat (of_nat n / 1024 ^ Suc 0))" for u us
    using step_skip0 [OF _ n, of u us] lo [of 0] by simp
  show ?thesis
    using skip0 skip [of "Suc 0"] skip [of "Suc (Suc 0)"] skip [of "Suc (Suc (Suc 0))"]
      skip [of "Suc (Suc (Suc (Suc 0)))"]
    unfolding format_size_def by (simp del: format_size_loop.simps(2) power_Suc)
qed

section \<open>Claims about format_size\<close>

text \<open>
  C5. \<^verbatim>\<open>format_size(0) == "0.00 B"\<close>, \<^verbatim>\<open>format_size(1024) == "1.00 KB"\<close>,
  \<^verbatim>\<open>format_size(1536) == "1.50 KB"\<close> and \<^verbatim>\<open>format_size(1048576) == "1.00 MB"\<close>; in general,
  when \<open>k\<close> is the first of the five units B, KB, MB, GB, TB at which the byte count
  divided by \<open>1024 ^ k\<close> is below 1024, the function returns that scaled value rendered
  with two decimals, a space and the unit.
\<close>

theorem format_size_first_unit_below_1024:
  "format_size 0 = Inr (Some ''0.00 B'') \<and>
   format_size 1024 = Inr (Some ''1.00 KB'') \<and>
   format_size 1536 = Inr (Some ''1.50 KB'') \<and>
   format_size 1048576 = Inr (Some ''1.00 MB'') \<and>
   (\<forall>k n. k < 5 \<and> of_nat n / 1024 ^ k < (1024::rat) \<and>
      (\<forall>j<k. (1024::rat) \<le> of_nat n / 1024 ^ j) \<longrightarrow>
      format_size n =
        Inr (Some (format_2f (of_nat n / 1024 ^ k) @ '' '' @
                   [''B'', ''KB'', ''MB'', ''GB'', ''TB''] ! k)))"
proof (intro conjI allI impI)
  have "format_2f (of_nat 0 / 1024 ^ 0) = ''0.00''"
    using format_2f_frac [of 1 0] by (simp add: show_nat_digit digit_char_def)
  with format_size_general [of 0 0] show "format_size 0 = Inr (Some ''0.00 B'')" by simp
next
  have "format_2f (of_nat 1024 / 1024 ^ 1) = ''1.00''"
    using format_2f_frac [of 1 1] by (simp add: show_nat_digit digit_char_def)
  with format_size_general [of 1 1024] show "format_size 1024 = Inr (Some ''1.00 KB'')" by simp
next
  have "format_2f (of_nat 1536 / 1024 ^ 1) = ''1.50''"
    using format_2f_frac [of 1024 1536] by (simp add: show_nat_digit digit_char_def)
  with format_size_general [of 1 1536] show "format_size 1536 = Inr (Some ''1.50 KB'')" by simp
next
  have h: "\<forall>j<2. (1024::rat) \<le> of_nat 1048576 / 1024 ^ j"
    by (simp add: less_Suc_eq numeral_2_eq_2)
  have "format_2f (of_nat 1048576 / 1024 ^ 2) = ''1.00''"
    using format_2f_frac [of 1 1] by (simp add: show_nat_digit digit_char_def)
  with format_size_general [of 2 1048576, OF _ _ h]
  show "format_size 1048576 = Inr (Some ''1.00 MB'')" by simp
next
  fix k n
  assume "k < 5 \<and> of_nat n / 1024 ^ k < (1024::rat) \<and>
      (\<forall>j<k. (1024::rat) \<le> of_nat n / 1024 ^ j)"
  then show "format_size n =
        Inr (Some (format_2f (of_nat n / 1024 ^ k) @ '' '' @
                   [''B'', ''KB'', ''MB'', ''GB'', ''TB''] ! k))"
    by (intro format_size_general) simp_all
qed

theorem format_size_first_unit_below_1024_witness:
  "(2::nat) < 5 \<and> of_nat 5000000 / 1024 ^ 2 < (1024::rat) \<and>
   (1024::rat) \<le> of_nat 5000000 / 1024 ^ 0 \<and> (1024::rat) \<le> of_nat 5000000 / 1024 ^ 1 \<and>
   format_size 5000000 = Inr (Some ''4.77 MB'')"
proof -
  have h: "\<forall>j<2. (1024::rat) \<le> of_nat 5000000 / 1024 ^ j"
    by (simp add: less_Suc_eq numeral_2_eq_2)
  have e: "format_2f (of_nat 5000000 / 1024 ^ 2) = ''4.77''"
    using format_2f_frac [of "1024 ^ 2" 5000000] by (simp add: show_nat_digit digit_char_def)
  from format_size_first_unit_below_1024
  have "2 < (5::nat) \<and> of_nat 5000000 / 1024 ^ 2 < (1024::rat) \<and>
      (\<forall>j<2. (1024::rat) \<le> of_nat 5000000 / 1024 ^ j) \<longrightarrow>
      format_size 5000000 =
        Inr (Some (format_2f (of_nat 5000000 / 1024 ^ 2) @ '' '' @
                   [''B'', ''KB'', ''MB'', ''GB'', ''TB''] ! 2))"
    by blast
  with h e show ?thesis by simp
qed

text \<open>
  C1. A byte count of \<open>1024 ^ 5\<close> or more should still be rendered in TB. The loop has
  no unit left after TB and no \<^verbatim>\<open>return\<close> after the loop: at \<open>1024 ^ 5\<close> the function
  returns \<^verbatim>\<open>None\<close>, not a string in TB.
\<close>

theorem format_size_tb_ceiling_returns_none:
  "format_size (1024 ^ 5) = Inr None"
proof -
  have "(1024::nat) ^ 5 < 2 ^ 53" by simp
  then show ?thesis by (intro format_size_beyond_tb_exact) simp_all
qed

section \<open>The hexadecimal digest\<close>

lemma length_hexdigest: "length (hexdigest w) = 64"
  by (simp add: hexdigest_def)

lemma hexdigest_nonempty: "hexdigest w \<noteq> []"
  using length_hexdigest [of w] by auto

lemma nibble_less: "unat (take_bit 4 (x :: 256 word)) < 16"
proof -
  have "take_bit 4 (unat x) < 2 ^ 4" by (rule take_bit_nat_less_exp)
  then show ?thesis by (simp add: unsigned_take_bit_eq)
qed



lemma hex_char_inj: "a < 16 \<Longrightarrow> b < 16 \<Longrightarrow> hex_char a = hex_char b \<Longrightarrow> a = b"
proof -
  assume a: "a < 16" and b: "b < 16" and e: "hex_char a = hex_char b"
  have d: "distinct ''0123456789abcdef''" by simp
  from a b have "a < length ''0123456789abcdef''" "b < length ''0123456789abcdef''" by simp_all
  with d e show "a = b" unfolding hex_char_def by (simp only: nth_eq_iff_index_eq)
qed

lemma hexdigest_nibble:
  assumes "hexdigest a = hexdigest b" and "k < 64"
  shows "take_bit 4 (drop_bit (4 * k) a) = take_bit 4 (drop_bit (4 * k) b)"
proof -
  let ?i = "63 - k"
  have i: "?i < 64" and k: "63 - ?i = k" using assms(2) by simp_all
  have "hexdigest a ! ?i = hexdigest b ! ?i" using assms(1) by simp
  then have "hex_char (unat (take_bit 4 (drop_bit (4 * k) a))) =
             hex_char (unat (take_bit 4 (drop_bit (4 * k) b)))"
    using i k unfolding hexdigest_def by (simp del: upt_Suc)
  then have "unat (take_bit 4 (drop_bit (4 * k) a)) = unat (take_bit 4 (drop_bit (4 * k) b))"
    by (rule hex_char_inj [OF nibble_less nibble_less])
  then show ?thesis by (simp only: unsigned_word_eqI)
qed

lemma hexdigest_inj: "hexdigest a = hexdigest b \<Longrightarrow> a = b"
proof (rule bit_word_eqI)
  fix n
  assume e: "hexdigest a = hexdigest b" and n: "n < LENGTH(256)"
  then have k: "n div 4 < 64" by simp
  have n4: "4 * (n div 4) + n mod 4 = n" by simp
  have "bit (take_bit 4 (drop_bit (4 * (n div 4)) a)) (n mod 4) =
        bit (take_bit 4 (drop_bit (4 * (n div 4)) b)) (n mod 4)"
    by (simp only: hexdigest_nibble [OF e k])
  then show "bit a n = bit b n"
    by (simp add: bit_take_bit_iff bit_drop_bit_eq n4)
qed

lemma hexdigest_eq_iff: "(hexdigest a = hexdigest b) = (a = b)"
  using hexdigest_inj by blast

section \<open>Reading and hashing a file\<close>

lemma read_loop_result:
  assumes "0 < block_size"
  shows "read_loop block_size content fault pos sha =
         (case fault of
            None \<Rightarrow> Inr (sha @ drop pos content)
          | Some (k, msg) \<Rightarrow>
              if pos \<le> k \<and> k < length content then Inl msg else Inr (sha @ drop pos content))"
  using assms
proof (induction block_size content fault pos sha rule: read_loop.induct)
  case (1 block_size content fault pos sha)
  let ?chunk = "take block_size (drop pos content)"
  have len: "length ?chunk = min block_size (length content - pos)" by simp
  show ?case
  proof (cases "f_read content fault pos block_size")
    case (Inl msg)
    then obtain k where f: "fault = Some (k, msg)" and k: "pos \<le> k" "k < pos + length ?chunk"
      by (auto simp: f_read_def Let_def split: option.splits if_splits)
    from k len have "k < length content" by simp
    with Inl f k show ?thesis by (subst read_loop.simps) simp
  next
    case (Inr chunk)
    then have chunk: "chunk = ?chunk"
      by (auto simp: f_read_def Let_def split: option.splits if_splits)
    have nofault: "\<not> (pos \<le> k \<and> k < pos + length ?chunk)" if "fault = Some (k, msg)" for k msg
      using Inr that by (auto simp: f_read_def Let_def split: if_splits)
    show ?thesis
    proof (cases "chunk = []")
      case True
      with chunk "1.prems" have past: "length content \<le> pos" by simp
      have "read_loop block_size content fault pos sha = Inr sha"
        using Inr True by (subst read_loop.simps) simp
      with past show ?thesis by (auto split: option.splits)
    next
      case False
      have step: "read_loop block_size content fault pos sha =
                  read_loop block_size content fault (pos + length chunk) (sha @ chunk)"
        using Inr False by (subst read_loop.simps) simp
      have app: "(sha @ chunk) @ drop (pos + length chunk) content = sha @ drop pos content"
      proof -
        have d: "drop (length (take n xs)) xs = drop n xs" for n and xs :: "byte list"
          by (simp add: min_def)
        have "drop (pos + length chunk) content = drop (length chunk) (drop pos content)"
          by (simp add: add.commute)
        also have "\<dots> = drop block_size (drop pos content)"
          unfolding chunk by (rule d)
        finally have "chunk @ drop (pos + length chunk) content =
              take block_size (drop pos content) @ drop block_size (drop pos content)"
          using chunk by (simp only:)
        also have "\<dots> = drop pos content" by (rule append_take_drop_id)
        finally show ?thesis by simp
      qed
      have cond: "(pos + length chunk \<le> k \<and> k < length content) = (pos \<le> k \<and> k < length content)"
        if "fault = Some (k, msg)" for k msg
        using nofault [OF that] chunk by auto
      from "1.IH" [OF Inr False "1.prems"] step app cond show ?thesis
        by (auto split: option.splits)
    qed
  qed
qed

lemma read_loop_from_start:
  "0 < block_size \<Longrightarrow>
   read_loop block_size content fault 0 [] =
     (case file_content (Openable content fault) of
        Some c \<Rightarrow> Inr c
      | None \<Rightarrow> Inl (snd (the fault)))"
  by (simp add: read_loop_result file_content_def split: option.splits)

lemma compute_file_hash_readable:
  assumes "0 < block_size" and "file_content (fs_file env path) = Some c"
  shows "compute_file_hash env path block_size eff =
         (Some (hexdigest (lib_sha256 env c)), syscall (OpenRead path) eff)"
proof -
  from assms(2) obtain content fault where f: "fs_file env path = Openable content fault"
    by (auto simp: file_content_def split: file_state.splits)
  with assms(2) have "file_content (Openable content fault) = Some c" by simp
  with read_loop_from_start [OF assms(1), of content fault]
  have "read_loop block_size content fault 0 [] = Inr c" by simp
  with f show ?thesis by (simp add: compute_file_hash_def)
qed

lemma compute_file_hash_unreadable:
  assumes "0 < block_size" and "file_content (fs_file env path) = None"
  shows "\<exists>msg. compute_file_hash env path block_size eff =
           (None, print (''Error al leer '' @ path @ '': '' @ msg) (syscall (OpenRead path) eff))"
proof (cases "fs_file env path")
  case (Unopenable msg)
  then show ?thesis by (intro exI [of _ msg]) (simp add: compute_file_hash_def)
next
  case (Openable content fault)
  with assms(2) have "file_content (Openable content fault) = None" by simp
  with read_loop_from_start [OF assms(1), of content fault]
  have "read_loop block_size content fault 0 [] = Inl (snd (the fault))" by simp
  with Openable show ?thesis
    by (intro exI [of _ "snd (the fault)"]) (simp add: compute_file_hash_def)
qed

lemma fst_compute_file_hash:
  "0 < block_size \<Longrightarrow> fst (compute_file_hash env path block_size eff) = digest_of env path"
proof (cases "file_content (fs_file env path)")
  case None
  assume "0 < block_size"
  from compute_file_hash_unreadable [OF this None, of eff] None
  show ?thesis by (auto simp: digest_of_def)
next
  case (Some c)
  assume "0 < block_size"
  from compute_file_hash_readable [OF this Some, of eff] Some
  show ?thesis by (simp add: digest_of_def)
qed


lemma files_compute_file_hash:
  "0 < block_size \<Longrightarrow> files (snd (compute_file_hash env path block_size eff)) = files eff"
proof (cases "file_content (fs_file env path)")
  case None
  assume "0 < block_size"
  from compute_file_hash_unreadable [OF this None, of eff]
  show ?thesis by (auto simp: print_def syscall_def)
next
  case (Some c)
  assume "0 < block_size"
  from compute_file_hash_readable [OF this Some, of eff]
  show ?thesis by (simp add: syscall_def)
qed

lemma digest_of_nonempty: "digest_of env p = Some h \<Longrightarrow> h \<noteq> []"
  by (auto simp: digest_of_def hexdigest_nonempty)

section \<open>The loops of find_duplicate_files as one fold over the enumerated paths\<close>

lemma scan_files_index:
  "fst (scan_files env dirpath filenames (d, n, eff)) =
   foldl (index_path env) d (map (os_path_join dirpath) filenames)"
proof (induction filenames arbitrary: d n eff)
  case Nil
  then show ?case by simp
next
  case (Cons filename filenames)
  let ?p = "os_path_join dirpath filename"
  obtain r eff' where c: "compute_file_hash env ?p 65536 eff = (r, eff')"
    by (cases "compute_file_hash env ?p 65536 eff")
  then have r: "r = digest_of env ?p"
    using fst_compute_file_hash [of 65536 env ?p eff] by simp
  show ?case
  proof (cases r)
    case None
    with c r Cons.IH show ?thesis by (simp add: index_path_def)
  next
    case (Some h)
    with r have "h \<noteq> []" using digest_of_nonempty [of env ?p h] by simp
    with Some c r Cons.IH show ?thesis by (simp add: index_path_def)
  qed
qed


lemma scan_files_files:
  "files (snd (snd (scan_files env dirpath filenames (d, n, eff)))) = files eff"
proof (induction filenames arbitrary: d n eff)
  case Nil
  then show ?case by simp
next
  case (Cons filename filenames)
  let ?p = "os_path_join dirpath filename"
  obtain r eff' where c: "compute_file_hash env ?p 65536 eff = (r, eff')"
    by (cases "compute_file_hash env ?p 65536 eff")
  then have t: "files eff' = files eff"
    using files_compute_file_hash [of 65536 env ?p eff] by simp
  from c t Cons.IH show ?case by (simp split: option.splits)
qed

lemma scan_dirs_index:
  "fst (scan_dirs env entries (d, n, eff)) =
   foldl (index_path env) d
     (concat (map (\<lambda>(dirpath, dirnames, filenames). map (os_path_join dirpath) filenames) entries))"
proof (induction entries arbitrary: d n eff)
  case Nil
  then show ?case by simp
next
  case (Cons e entries)
  obtain dirpath dirnames filenames where e: "e = (dirpath, dirnames, filenames)"
    by (cases e)
  obtain d' n' eff' where s: "scan_files env dirpath filenames (d, n, eff) = (d', n', eff')"
    by (cases "scan_files env dirpath filenames (d, n, eff)")
  then have "d' = foldl (index_path env) d (map (os_path_join dirpath) filenames)"
    using scan_files_index [of env dirpath filenames d n eff] by simp
  with e s Cons.IH [of d' n' eff'] show ?case by simp
qed


lemma scan_dirs_files:
  "files (snd (snd (scan_dirs env entries (d, n, eff)))) = files eff"
proof (induction entries arbitrary: d n eff)
  case Nil
  then show ?case by simp
next
  case (Cons e entries)
  obtain dirpath dirnames filenames where e: "e = (dirpath, dirnames, filenames)"
    by (cases e)
  obtain d' n' eff' where s: "scan_files env dirpath filenames (d, n, eff) = (d', n', eff')"
    by (cases "scan_files env dirpath filenames (d, n, eff)")
  then have "files eff' = files eff"
    using scan_files_files [of env dirpath filenames d n eff] by simp
  with e s Cons.IH [of d' n' eff'] show ?case by simp
qed

lemma fst_find_duplicate_files:
  "fst (find_duplicate_files env base_directory eff) =
   filter (\<lambda>(h, paths). 1 < length paths)
     (foldl (index_path env) [] (walked_files env base_directory))"
proof -
  let ?entries = "if fs_kind env base_directory = Directory then fs_walk env base_directory else []"
  let ?eff1 = "syscall (Walk base_directory) eff"
  obtain d n eff2 where s: "scan_dirs env ?entries ([], 0, ?eff1) = (d, n, eff2)"
    by (cases "scan_dirs env ?entries ([], 0, ?eff1)")
  then have "d = foldl (index_path env) [] (walked_files env base_directory)"
    using scan_dirs_index [of env ?entries "[]" 0 ?eff1] by (simp add: walked_files_def)
  with s show ?thesis by (simp add: find_duplicate_files_def os_walk_def)
qed


lemma files_find_duplicate_files:
  "files (snd (find_duplicate_files env base_directory eff)) = files eff"
proof -
  let ?entries = "if fs_kind env base_directory = Directory then fs_walk env base_directory else []"
  let ?eff1 = "syscall (Walk base_directory) eff"
  obtain d n eff2 where s: "scan_dirs env ?entries ([], 0, ?eff1) = (d, n, eff2)"
    by (cases "scan_dirs env ?entries ([], 0, ?eff1)")
  then have "files eff2 = files ?eff1"
    using scan_dirs_files [of env ?entries "[]" 0 ?eff1] by simp
  with s show ?thesis by (simp add: find_duplicate_files_def os_walk_def syscall_def)
qed

section \<open>The index as a map from digests to paths\<close>

lemma keys_dict_append:
  "map fst (dict_append k v d) = (if k \<in> set (map fst d) then map fst d else map fst d @ [k])"
  by (induction d) force+

lemma distinct_dict_append:
  "distinct (map fst d) \<Longrightarrow> distinct (map fst (dict_append k v d))"
  by (simp add: keys_dict_append)

lemma map_of_dict_append:
  "map_of (dict_append k v d) h =
     (if h = k then Some (case map_of d k of None \<Rightarrow> [v] | Some vs \<Rightarrow> vs @ [v])
      else map_of d h)"
  by (induction d) auto

lemma distinct_index_path:
  "distinct (map fst d) \<Longrightarrow> distinct (map fst (index_path env d p))"
  by (simp add: index_path_def distinct_dict_append split: option.splits)

lemma distinct_foldl_index_path:
  "distinct (map fst d) \<Longrightarrow> distinct (map fst (foldl (index_path env) d ps))"
  by (induction ps arbitrary: d) (simp_all add: distinct_index_path)

lemma map_of_foldl_index_path:
  "map_of (foldl (index_path env) d ps) h =
     (case map_of d h of
        None \<Rightarrow> (if filter (\<lambda>p. digest_of env p = Some h) ps = [] then None
                 else Some (filter (\<lambda>p. digest_of env p = Some h) ps))
      | Some vs \<Rightarrow> Some (vs @ filter (\<lambda>p. digest_of env p = Some h) ps))"
proof (induction ps arbitrary: d)
  case Nil
  then show ?case by (simp split: option.splits)
next
  case (Cons p ps)
  show ?case
  proof (cases "digest_of env p = Some h")
    case True
    then have "map_of (index_path env d p) h =
               Some (case map_of d h of None \<Rightarrow> [p] | Some vs \<Rightarrow> vs @ [p])"
      by (simp add: index_path_def map_of_dict_append)
    with True Cons.IH [of "index_path env d p"] show ?thesis
      by (simp split: option.splits)
  next
    case False
    then have "map_of (index_path env d p) h = map_of d h"
      by (auto simp: index_path_def map_of_dict_append split: option.splits)
    with False Cons.IH [of "index_path env d p"] show ?thesis
      by (simp split: option.splits)
  qed
qed

lemma map_of_filter_values:
  "distinct (map fst d) \<Longrightarrow>
   map_of (filter (\<lambda>(h, paths). P paths) d) k =
     (case map_of d k of None \<Rightarrow> None | Some paths \<Rightarrow> if P paths then Some paths else None)"
proof (induction d)
  case Nil
  then show ?case by simp
next
  case (Cons e d)
  obtain h paths where e: "e = (h, paths)" by (cases e)
  from Cons.prems e have notin: "h \<notin> fst ` set d" and dist: "distinct (map fst d)" by simp_all
  from notin have none: "map_of d h = None" by (simp add: map_of_eq_None_iff)
  from Cons.IH [OF dist] e none show ?case by (auto split: option.splits)
qed

lemma group_membership:
  "((h, ps) \<in> set (fst (find_duplicate_files env base_directory eff))) =
   (ps = filter (\<lambda>p. digest_of env p = Some h) (walked_files env base_directory) \<and> 1 < length ps)"
proof -
  let ?d = "foldl (index_path env) [] (walked_files env base_directory)"
  let ?f = "filter (\<lambda>(h, paths). 1 < length paths) ?d"
  have dd: "distinct (map fst ?d)" by (rule distinct_foldl_index_path) simp
  then have df: "distinct (map fst ?f)" by (rule distinct_map_filter)
  have "((h, ps) \<in> set ?f) = (map_of ?f h = Some ps)"
    using df by simp
  also have "\<dots> = (ps = filter (\<lambda>p. digest_of env p = Some h) (walked_files env base_directory)
                    \<and> 1 < length ps)"
    by (auto simp: map_of_filter_values [OF dd] map_of_foldl_index_path split: if_splits)
  finally show ?thesis by (simp only: fst_find_duplicate_files)
qed

lemma distinct_keys_find_duplicate_files:
  "distinct (map fst (fst (find_duplicate_files env base_directory eff)))"
proof -
  have "distinct (map fst (foldl (index_path env) [] (walked_files env base_directory)))"
    by (rule distinct_foldl_index_path) simp
  then show ?thesis unfolding fst_find_duplicate_files by (rule distinct_map_filter)
qed

section \<open>The small tree, evaluated\<close>

lemma example_walked:
  "walked_files example_env ''/d'' = [''/d/a'', ''/d/b'', ''/d/c'', ''/d/k'', ''/d/x'', ''/d/s/e'']"
  by (simp add: walked_files_def example_env_def os_path_join_def)

lemma example_walked_reordered:
  "walked_files example_env_reordered ''/d'' =
     [''/d/s/e'', ''/d/x'', ''/d/k'', ''/d/c'', ''/d/b'', ''/d/a'']"
  by (simp add: walked_files_def example_env_reordered_def example_env_def os_path_join_def)

lemma example_contents:
  "file_content (fs_file example_env ''/d/a'') = Some [1, 2]"
  "file_content (fs_file example_env ''/d/b'') = Some [3]"
  "file_content (fs_file example_env ''/d/c'') = Some [1, 2]"
  "file_content (fs_file example_env ''/d/k'') = Some [7, 8]"
  "file_content (fs_file example_env ''/d/x'') = None"
  "file_content (fs_file example_env ''/d/s/e'') = None"
  by (simp_all add: example_env_def example_files_def file_content_def)

lemma example_digests:
  "digest_of example_env ''/d/a'' = Some (hexdigest 2)"
  "digest_of example_env ''/d/b'' = Some (hexdigest 1)"
  "digest_of example_env ''/d/c'' = Some (hexdigest 2)"
  "digest_of example_env ''/d/k'' = Some (hexdigest 2)"
  "digest_of example_env ''/d/x'' = None"
  "digest_of example_env ''/d/s/e'' = None"
  by (simp_all add: digest_of_def example_contents) (simp_all add: example_env_def)

lemma example_digests_reordered:
  "digest_of example_env_reordered = digest_of example_env"
  by (rule ext) (simp add: digest_of_def example_env_reordered_def)

lemma example_groups:
  "fst (find_duplicate_files example_env ''/d'' eff) = [(hexdigest 2, [''/d/a'', ''/d/c'', ''/d/k''])]"
  by (simp add: fst_find_duplicate_files example_walked index_path_def example_digests
      hexdigest_eq_iff)

lemma example_groups_reordered:
  "fst (find_duplicate_files example_env_reordered ''/d'' eff) =
     [(hexdigest 2, [''/d/k'', ''/d/c'', ''/d/a''])]"
  by (simp add: fst_find_duplicate_files example_walked_reordered index_path_def
      example_digests_reordered example_digests hexdigest_eq_iff)

section \<open>Claims about compute_file_hash and a missing base directory\<close>





section \<open>Claims about the groups of find_duplicate_files\<close>

lemma group_member_digest:
  assumes "(h, ps) \<in> set (fst (find_duplicate_files env base_directory eff))" and "p \<in> set ps"
  shows "digest_of env p = Some h" and "p \<in> set (walked_files env base_directory)"
  using assms by (auto simp: group_membership)

lemma two_members_length:
  assumes "p \<in> set ps" "q \<in> set ps" "p \<noteq> q"
  shows "1 < length ps"
proof -
  have "card {p, q} \<le> card (set ps)" using assms by (intro card_mono) simp_all
  also have "card (set ps) \<le> length ps" by (rule card_length)
  finally show ?thesis using assms(3) by simp
qed

lemma same_content_one_group:
  assumes p: "p \<in> set (walked_files env base_directory)"
    and q: "q \<in> set (walked_files env base_directory)"
    and pq: "p \<noteq> q"
    and cp: "file_content (fs_file env p) = Some c"
    and cq: "file_content (fs_file env q) = Some c"
  shows "\<exists>h ps. (h, ps) \<in> set (fst (find_duplicate_files env base_directory eff)) \<and>
           p \<in> set ps \<and> q \<in> set ps \<and>
           (\<forall>h' ps'. (h', ps') \<in> set (fst (find_duplicate_files env base_directory eff)) \<and>
                (p \<in> set ps' \<or> q \<in> set ps') \<longrightarrow> h' = h \<and> ps' = ps)"
proof -
  let ?h = "hexdigest (lib_sha256 env c)"
  let ?ps = "filter (\<lambda>p. digest_of env p = Some ?h) (walked_files env base_directory)"
  have dp: "digest_of env p = Some ?h" and dq: "digest_of env q = Some ?h"
    using cp cq by (simp_all add: digest_of_def)
  with p q have mem: "p \<in> set ?ps" "q \<in> set ?ps" by simp_all
  from two_members_length [OF mem pq] have "(?h, ?ps) \<in> set (fst (find_duplicate_files env base_directory eff))"
    by (simp add: group_membership)
  moreover have "h' = ?h \<and> ps' = ?ps"
    if "(h', ps') \<in> set (fst (find_duplicate_files env base_directory eff))"
      and "p \<in> set ps' \<or> q \<in> set ps'" for h' ps'
  proof -
    from that group_member_digest(1) [OF that(1)] dp dq have "h' = ?h" by auto
    with that(1) show ?thesis by (simp add: group_membership)
  qed
  ultimately show ?thesis using mem by blast
qed

text \<open>
  C3. In the mapping \<^verbatim>\<open>find_duplicate_files\<close> returns, every group has at least two paths
  and the digest of every path of a group is the key of the group; two different
  enumerated files that are read with the same content are in one and the same group and
  in no other; and two files of one group whose contents differ have contents with the
  same SHA-256 value, that is, only a collision puts different contents together.
\<close>

theorem find_duplicate_files_groups:
  "(\<forall>(h, ps) \<in> set (fst (find_duplicate_files env base_directory eff)).
      2 \<le> length ps \<and> (\<forall>p \<in> set ps. fst (compute_file_hash env p 65536 eff') = Some h)) \<and>
   (\<forall>p q c. p \<in> set (walked_files env base_directory) \<and>
        q \<in> set (walked_files env base_directory) \<and> p \<noteq> q \<and>
        file_content (fs_file env p) = Some c \<and> file_content (fs_file env q) = Some c \<longrightarrow>
        (\<exists>h ps. (h, ps) \<in> set (fst (find_duplicate_files env base_directory eff)) \<and>
           p \<in> set ps \<and> q \<in> set ps \<and>
           (\<forall>h' ps'. (h', ps') \<in> set (fst (find_duplicate_files env base_directory eff)) \<and>
                (p \<in> set ps' \<or> q \<in> set ps') \<longrightarrow> h' = h \<and> ps' = ps))) \<and>
   (\<forall>(h, ps) \<in> set (fst (find_duplicate_files env base_directory eff)).
      \<forall>p \<in> set ps. \<forall>q \<in> set ps. \<forall>c c'.
        file_content (fs_file env p) = Some c \<and> file_content (fs_file env q) = Some c' \<and> c \<noteq> c' \<longrightarrow>
        lib_sha256 env c = lib_sha256 env c')"
proof (intro conjI)
  show "\<forall>(h, ps) \<in> set (fst (find_duplicate_files env base_directory eff)).
      2 \<le> length ps \<and> (\<forall>p \<in> set ps. fst (compute_file_hash env p 65536 eff') = Some h)"
  proof (intro ballI, clarify, intro conjI ballI)
    fix h ps
    assume g: "(h, ps) \<in> set (fst (find_duplicate_files env base_directory eff))"
    then have "1 < length ps" unfolding group_membership by (rule conjunct2)
    then show "2 \<le> length ps" by simp
    fix p
    assume "p \<in> set ps"
    from group_member_digest(1) [OF g this]
    show "fst (compute_file_hash env p 65536 eff') = Some h"
      by (simp add: fst_compute_file_hash)
  qed
next
  show "\<forall>p q c. p \<in> set (walked_files env base_directory) \<and>
        q \<in> set (walked_files env base_directory) \<and> p \<noteq> q \<and>
        file_content (fs_file env p) = Some c \<and> file_content (fs_file env q) = Some c \<longrightarrow>
        (\<exists>h ps. (h, ps) \<in> set (fst (find_duplicate_files env base_directory eff)) \<and>
           p \<in> set ps \<and> q \<in> set ps \<and>
           (\<forall>h' ps'. (h', ps') \<in> set (fst (find_duplicate_files env base_directory eff)) \<and>
                (p \<in> set ps' \<or> q \<in> set ps') \<longrightarrow> h' = h \<and> ps' = ps))"
    by (intro allI impI same_content_one_group) simp_all
next
  show "\<forall>(h, ps) \<in> set (fst (find_duplicate_files env base_directory eff)).
      \<forall>p \<in> set ps. \<forall>q \<in> set ps. \<forall>c c'.
        file_content (fs_file env p) = Some c \<and> file_content (fs_file env q) = Some c' \<and> c \<noteq> c' \<longrightarrow>
        lib_sha256 env c = lib_sha256 env c'"
  proof (intro ballI, clarify)
    fix h ps p q c c'
    assume g: "(h, ps) \<in> set (fst (find_duplicate_files env base_directory eff))"
      and p: "p \<in> set ps" and q: "q \<in> set ps"
      and c: "file_content (fs_file env p) = Some c" "file_content (fs_file env q) = Some c'"
    from group_member_digest(1) [OF g p] group_member_digest(1) [OF g q] c
    have "hexdigest (lib_sha256 env c) = hexdigest (lib_sha256 env c')"
      by (simp add: digest_of_def)
    then show "lib_sha256 env c = lib_sha256 env c'" by (rule hexdigest_inj)
  qed
qed

theorem find_duplicate_files_groups_witness:
  "fst (find_duplicate_files example_env ''/d'' no_effects) =
     [(hexdigest 2, [''/d/a'', ''/d/c'', ''/d/k''])] \<and>
   fst (compute_file_hash example_env ''/d/a'' 65536 no_effects) = Some (hexdigest 2) \<and>
   fst (compute_file_hash example_env ''/d/c'' 65536 no_effects) = Some (hexdigest 2) \<and>
   fst (compute_file_hash example_env ''/d/k'' 65536 no_effects) = Some (hexdigest 2) \<and>
   ''/d/a'' \<in> set (walked_files example_env ''/d'') \<and>
   ''/d/c'' \<in> set (walked_files example_env ''/d'') \<and>
   file_content (fs_file example_env ''/d/a'') = Some [1, 2] \<and>
   file_content (fs_file example_env ''/d/c'') = Some [1, 2] \<and>
   file_content (fs_file example_env ''/d/k'') = Some [7, 8] \<and>
   lib_sha256 example_env [1, 2] = lib_sha256 example_env [7, 8]"
proof -
  note t = find_duplicate_files_groups [of example_env "''/d''" no_effects no_effects]
  let ?g = "[(hexdigest 2, [''/d/a'', ''/d/c'', ''/d/k''])]"
  have g: "fst (find_duplicate_files example_env ''/d'' no_effects) = ?g"
    by (rule example_groups)
  from t have "\<forall>(h, ps) \<in> set ?g.
      2 \<le> length ps \<and> (\<forall>p \<in> set ps. fst (compute_file_hash example_env p 65536 no_effects) = Some h)"
    unfolding g by (rule conjunct1)
  then have d: "fst (compute_file_hash example_env ''/d/a'' 65536 no_effects) = Some (hexdigest 2)"
    "fst (compute_file_hash example_env ''/d/c'' 65536 no_effects) = Some (hexdigest 2)"
    "fst (compute_file_hash example_env ''/d/k'' 65536 no_effects) = Some (hexdigest 2)"
    by simp_all
  from t have "\<forall>(h, ps) \<in> set ?g.
      \<forall>p \<in> set ps. \<forall>q \<in> set ps. \<forall>c c'.
        file_content (fs_file example_env p) = Some c \<and>
        file_content (fs_file example_env q) = Some c' \<and> c \<noteq> c' \<longrightarrow>
        lib_sha256 example_env c = lib_sha256 example_env c'"
    unfolding g by (elim conjE)
  then have "file_content (fs_file example_env ''/d/a'') = Some [1, 2] \<and>
        file_content (fs_file example_env ''/d/k'') = Some [7, 8] \<and> [1, 2 :: byte] \<noteq> [7, 8] \<longrightarrow>
        lib_sha256 example_env [1, 2] = lib_sha256 example_env [7, 8]"
    by simp
  then have c: "lib_sha256 example_env [1, 2] = lib_sha256 example_env [7, 8]"
    by (simp add: example_contents)
  from g d c show ?thesis by (simp add: example_walked example_contents)
qed



lemma mset_filter_eq:
  "mset xs = mset ys \<Longrightarrow> mset (filter P xs) = mset (filter P ys)"
  by (metis mset_filter)

lemma groupings_of_membership:
  "(\<lambda>(h, ps). (h, set ps)) ` set (fst (find_duplicate_files env base_directory eff)) =
   {(h, set (filter (\<lambda>p. digest_of env p = Some h) (walked_files env base_directory))) | h.
      1 < length (filter (\<lambda>p. digest_of env p = Some h) (walked_files env base_directory))}"
proof (intro equalityI subsetI)
  fix x
  assume "x \<in> (\<lambda>(h, ps). (h, set ps)) ` set (fst (find_duplicate_files env base_directory eff))"
  then obtain h ps where g: "(h, ps) \<in> set (fst (find_duplicate_files env base_directory eff))"
    and x: "x = (h, set ps)" by auto
  from g have "ps = filter (\<lambda>p. digest_of env p = Some h) (walked_files env base_directory)
      \<and> 1 < length ps" unfolding group_membership .
  with x show "x \<in> {(h, set (filter (\<lambda>p. digest_of env p = Some h) (walked_files env base_directory))) | h.
      1 < length (filter (\<lambda>p. digest_of env p = Some h) (walked_files env base_directory))}"
    by blast
next
  fix x
  assume "x \<in> {(h, set (filter (\<lambda>p. digest_of env p = Some h) (walked_files env base_directory))) | h.
      1 < length (filter (\<lambda>p. digest_of env p = Some h) (walked_files env base_directory))}"
  then obtain h where x: "x = (h, set (filter (\<lambda>p. digest_of env p = Some h) (walked_files env base_directory)))"
    and l: "1 < length (filter (\<lambda>p. digest_of env p = Some h) (walked_files env base_directory))"
    by blast
  from l have "(h, filter (\<lambda>p. digest_of env p = Some h) (walked_files env base_directory))
               \<in> set (fst (find_duplicate_files env base_directory eff))"
    by (simp only: group_membership simp_thms)
  then have "(\<lambda>(h, ps). (h, set ps)) (h, filter (\<lambda>p. digest_of env p = Some h) (walked_files env base_directory))
             \<in> (\<lambda>(h, ps). (h, set ps)) ` set (fst (find_duplicate_files env base_directory eff))"
    by (rule imageI)
  with x show "x \<in> (\<lambda>(h, ps). (h, set ps)) ` set (fst (find_duplicate_files env base_directory eff))"
    by simp
qed

text \<open>
  C8. Two runs over the same tree, with the same files and contents but enumerated in
  different orders, return the same groupings from digests to sets of paths.
\<close>

theorem same_groupings_in_any_order:
  assumes "lib_sha256 env1 = lib_sha256 env2"
    and "fs_file env1 = fs_file env2"
    and "mset (walked_files env1 base_directory) = mset (walked_files env2 base_directory)"
  shows "(\<lambda>(h, ps). (h, set ps)) ` set (fst (find_duplicate_files env1 base_directory eff1)) =
         (\<lambda>(h, ps). (h, set ps)) ` set (fst (find_duplicate_files env2 base_directory eff2))"
proof -
  have d: "digest_of env1 = digest_of env2"
    using assms(1,2) by (intro ext) (simp add: digest_of_def)
  have m: "mset (filter (\<lambda>p. digest_of env2 p = Some h) (walked_files env1 base_directory)) =
           mset (filter (\<lambda>p. digest_of env2 p = Some h) (walked_files env2 base_directory))" for h
    using assms(3) by (rule mset_filter_eq)
  have s: "set (filter (\<lambda>p. digest_of env2 p = Some h) (walked_files env1 base_directory)) =
           set (filter (\<lambda>p. digest_of env2 p = Some h) (walked_files env2 base_directory))" for h
    using m [of h] by (rule mset_eq_setD)
  have l: "length (filter (\<lambda>p. digest_of env2 p = Some h) (walked_files env1 base_directory)) =
           length (filter (\<lambda>p. digest_of env2 p = Some h) (walked_files env2 base_directory))" for h
    using m [of h] by (rule mset_eq_length)
  show ?thesis
    unfolding groupings_of_membership d by (simp only: s l)
qed

theorem same_groupings_in_any_order_witness:
  "lib_sha256 example_env = lib_sha256 example_env_reordered \<and>
   fs_file example_env = fs_file example_env_reordered \<and>
   walked_files example_env ''/d'' = [''/d/a'', ''/d/b'', ''/d/c'', ''/d/k'', ''/d/x'', ''/d/s/e''] \<and>
   walked_files example_env_reordered ''/d'' =
     [''/d/s/e'', ''/d/x'', ''/d/k'', ''/d/c'', ''/d/b'', ''/d/a''] \<and>
   fst (find_duplicate_files example_env ''/d'' no_effects) =
     [(hexdigest 2, [''/d/a'', ''/d/c'', ''/d/k''])] \<and>
   fst (find_duplicate_files example_env_reordered ''/d'' no_effects) =
     [(hexdigest 2, [''/d/k'', ''/d/c'', ''/d/a''])] \<and>
   {(hexdigest 2, set [''/d/a'', ''/d/c'', ''/d/k''])} =
     {(hexdigest 2, set [''/d/k'', ''/d/c'', ''/d/a''])}"
proof -
  have a: "lib_sha256 example_env = lib_sha256 example_env_reordered"
    and b: "fs_file example_env = fs_file example_env_reordered"
    by (simp_all add: example_env_reordered_def)
  have c: "mset (walked_files example_env ''/d'') = mset (walked_files example_env_reordered ''/d'')"
    by (simp add: example_walked example_walked_reordered)
  from same_groupings_in_any_order [OF a b c, of no_effects no_effects] a b
  show ?thesis
    by (simp add: example_groups example_groups_reordered example_walked example_walked_reordered)
qed

section \<open>Claims about main\<close>

text \<open>
  C2. When the root path is missing or is not a directory, \<^verbatim>\<open>main\<close> prints its message and
  returns: no file-system call of the pipeline is made (no walk, no file opened, no size
  query, no report opened for writing) and the files of the working directory are as before.
\<close>

theorem main_invalid_directory:
  "fs_kind env directory \<noteq> Directory \<Longrightarrow>
   main env directory eff = (None, print invalid_path_text eff) \<and>
   trace (snd (main env directory eff)) = trace eff \<and>
   files (snd (main env directory eff)) = files eff"
  by (simp add: main_def os_path_isdir_def print_def)

theorem main_invalid_directory_witness:
  "fs_kind example_env ''/nowhere'' \<noteq> Directory \<and>
   fs_kind example_env ''/d/a'' \<noteq> Directory \<and>
   main example_env ''/nowhere'' no_effects =
     (None, \<lparr>stdout = [invalid_path_text], trace = [], files = Map.empty\<rparr>) \<and>
   main example_env ''/d/a'' no_effects =
     (None, \<lparr>stdout = [invalid_path_text], trace = [], files = Map.empty\<rparr>)"
proof -
  have k: "fs_kind example_env ''/nowhere'' \<noteq> Directory" "fs_kind example_env ''/d/a'' \<noteq> Directory"
    by (simp_all add: example_env_def)
  from main_invalid_directory [OF k(1), of no_effects]
    main_invalid_directory [OF k(2), of no_effects] k
  show ?thesis by (simp add: print_def no_effects_def)
qed

section \<open>The loops of calculate_reclaimable_space as sums\<close>








section \<open>Claims about calculate_reclaimable_space\<close>




section \<open>Claims about save_results_to_csv\<close>






end
